theory Spec2Isabelle
  imports Main
begin

section \<open>Data model of \<^verbatim>\<open>maze_generator.py\<close>\<close>

text \<open>
  A cell is a Python tuple \<^verbatim>\<open>(row, column)\<close> of unbounded integers. The grid is a list
  of rows, each a list of one-character strings: \<^verbatim>\<open>'#'\<close> wall, \<^verbatim>\<open>' '\<close> open,
  \<^verbatim>\<open>'A'\<close> start, \<^verbatim>\<open>'B'\<close> goal.
\<close>

type_synonym cell = "int \<times> int"
type_synonym grid = "char list list"

text \<open>The exceptions the generator's operations can raise.\<close>

datatype error = IndexError | ValueError

text \<open>
  The object built by \<^verbatim>\<open>MazeGenerator.__init__\<close>; \<^verbatim>\<open>self.maze\<close> is \<^verbatim>\<open>None\<close> until a
  generation run has finished.
\<close>

record MazeGenerator =
  width :: int
  height :: int
  multiple_solutions :: bool
  maze :: "grid option"

text \<open>
  \<^verbatim>\<open>__init__\<close> (lines 7-12). Python's \<^verbatim>\<open>%\<close> with a positive divisor is the floor
  modulus, as \<open>mod\<close> on \<open>int\<close> is. The body has no \<^verbatim>\<open>raise\<close> and indexes nothing: the
  result is always an object, written \<open>Inr\<close>.
\<close>

definition MazeGenerator_init :: "int \<Rightarrow> int \<Rightarrow> bool \<Rightarrow> error + MazeGenerator" where
  "MazeGenerator_init w h ms =
     Inr \<lparr> width = (if w mod 2 = 1 then w else w + 1),
           height = (if h mod 2 = 1 then h else h + 1),
           multiple_solutions = ms,
           maze = None \<rparr>"

text \<open>The spec's rounding of a requested dimension up to the nearest odd value.\<close>

definition round_up_odd :: "int \<Rightarrow> int" where
  "round_up_odd n = (if odd n then n else n + 1)"

section \<open>Python list and random operations used by the generator\<close>

text \<open>
  Python list indexing: an index from \<open>0\<close> to \<open>n - 1\<close> is taken as it is, one from \<open>- n\<close>
  to \<open>- 1\<close> counts from the end, anything else raises \<^verbatim>\<open>IndexError\<close>.
\<close>

definition py_index :: "nat \<Rightarrow> int \<Rightarrow> error + nat" where
  "py_index n i =
     (if 0 \<le> i \<and> i < int n then Inr (nat i)
      else if - int n \<le> i \<and> i < 0 then Inr (nat (int n + i))
      else Inl IndexError)"

text \<open>\<^verbatim>\<open>maze[r][c]\<close> read and \<^verbatim>\<open>maze[r][c] = v\<close>.\<close>

definition grid_get :: "grid \<Rightarrow> int \<Rightarrow> int \<Rightarrow> error + char" where
  "grid_get m r c =
     (case py_index (length m) r of
        Inl e \<Rightarrow> Inl e
      | Inr i \<Rightarrow>
          (case py_index (length (m ! i)) c of
             Inl e \<Rightarrow> Inl e
           | Inr j \<Rightarrow> Inr (m ! i ! j)))"

definition grid_set :: "grid \<Rightarrow> int \<Rightarrow> int \<Rightarrow> char \<Rightarrow> error + grid" where
  "grid_set m r c v =
     (case py_index (length m) r of
        Inl e \<Rightarrow> Inl e
      | Inr i \<Rightarrow>
          (case py_index (length (m ! i)) c of
             Inl e \<Rightarrow> Inl e
           | Inr j \<Rightarrow> Inr (m[i := (m ! i)[j := v]])))"

text \<open>
  \<^verbatim>\<open>range(start, stop, step)\<close> as a list; its length is Python's
  \<^verbatim>\<open>max(0, (stop - start + step - 1) // step)\<close> for a positive step and
  \<^verbatim>\<open>max(0, (start - stop - step - 1) // (- step))\<close> for a negative one. The source only
  uses the steps \<open>2\<close>, \<open>- 2\<close> and \<open>- 1\<close>; step \<open>0\<close> (a \<^verbatim>\<open>ValueError\<close> in Python) never
  occurs.
\<close>

definition py_range :: "int \<Rightarrow> int \<Rightarrow> int \<Rightarrow> int list" where
  "py_range start stop step =
     (if 0 < step then
        map (\<lambda>k. start + int k * step) [0..<nat ((stop - start + step - 1) div step)]
      else if step < 0 then
        map (\<lambda>k. start + int k * step) [0..<nat ((start - stop - step - 1) div (- step))]
      else [])"

text \<open>
  The random source is the sequence of raw draws \<open>rs 0\<close>, \<open>rs 1\<close>, ...; the number of draws
  consumed so far is threaded through the run. \<^verbatim>\<open>random.choice(seq)\<close> takes one draw and
  returns the element at that draw modulo the length, so every element can be chosen;
  on an empty sequence it raises \<^verbatim>\<open>IndexError\<close>.
\<close>

type_synonym rng = "nat \<Rightarrow> nat"

definition choice :: "rng \<Rightarrow> nat \<Rightarrow> 'a list \<Rightarrow> error + ('a \<times> nat)" where
  "choice rs pos xs =
     (if xs = [] then Inl IndexError
      else Inr (xs ! (rs pos mod length xs), Suc pos))"

text \<open>
  \<^verbatim>\<open>random.sample(population, k)\<close>: \<open>k\<close> elements at distinct positions, each picked by
  one draw among those left; \<^verbatim>\<open>ValueError\<close> when \<open>k\<close> exceeds the population.
\<close>

fun sample_loop :: "rng \<Rightarrow> 'a list \<Rightarrow> nat \<Rightarrow> nat \<Rightarrow> 'a list \<times> nat" where
  "sample_loop rs pool 0 pos = ([], pos)"
| "sample_loop rs pool (Suc k) pos =
     (let i = rs pos mod length pool;
          (picked, pos') = sample_loop rs (take i pool @ drop (Suc i) pool) k (Suc pos)
      in (pool ! i # picked, pos'))"

definition sample :: "rng \<Rightarrow> nat \<Rightarrow> 'a list \<Rightarrow> nat \<Rightarrow> error + ('a list \<times> nat)" where
  "sample rs pos population k =
     (if length population < k then Inl ValueError
      else Inr (sample_loop rs population k pos))"

text \<open>
  \<^verbatim>\<open>path.index(x)\<close>: the position of the first occurrence, \<^verbatim>\<open>ValueError\<close> when there
  is none.
\<close>

fun list_index :: "'a list \<Rightarrow> 'a \<Rightarrow> error + nat" where
  "list_index [] x = Inl ValueError"
| "list_index (y # ys) x =
     (if y = x then Inr 0
      else (case list_index ys x of Inl e \<Rightarrow> Inl e | Inr i \<Rightarrow> Inr (Suc i)))"

section \<open>The generation event stream and the generator's local state\<close>

text \<open>
  Each \<^verbatim>\<open>yield maze, tag, payload\<close> is recorded as an event: the grid as it is at that
  moment, the tag, and the payload, which is a cell, a path or \<^verbatim>\<open>None\<close>.
\<close>

datatype payload = Cell cell | Path "cell list" | NoPayload

type_synonym event = "grid \<times> string \<times> payload"

text \<open>
  The local variables of \<^verbatim>\<open>wilson_algorithm_generator\<close> that live across the walks:
  \<^verbatim>\<open>maze\<close>, \<^verbatim>\<open>in_maze\<close>, the number of random draws consumed, and the events yielded so
  far in order.
\<close>

record gen_state =
  cur_maze :: grid
  in_maze :: "cell set"
  draws :: nat
  yielded :: "event list"

definition yield :: "string \<Rightarrow> payload \<Rightarrow> gen_state \<Rightarrow> gen_state" where
  "yield tag p st = st\<lparr>yielded := yielded st @ [(cur_maze st, tag, p)]\<rparr>"

section \<open>The random walk (lines 32-54)\<close>

definition max_steps :: nat where
  "max_steps = 1000"

text \<open>Lines 37-41: the cells two steps away that lie strictly inside the border.\<close>

definition walk_neighbors :: "MazeGenerator \<Rightarrow> cell \<Rightarrow> cell list" where
  "walk_neighbors g current =
     filter (\<lambda>(nr, nc). 1 \<le> nr \<and> nr < height g - 1 \<and> 1 \<le> nc \<and> nc < width g - 1)
       (map (\<lambda>(dr, dc). (fst current + dr, snd current + dc))
          [(0, 2), (0, - 2), (2, 0), (- 2, 0)])"

text \<open>Lines 47-51: loop erasure, or appending the new cell.\<close>

definition extend_path :: "cell list \<Rightarrow> cell \<Rightarrow> error + cell list" where
  "extend_path path next_cell =
     (if next_cell \<in> set path then
        (case list_index path next_cell of
           Inl e \<Rightarrow> Inl e
         | Inr loop_start \<Rightarrow> Inr (take (loop_start + 1) path))
      else Inr (path @ [next_cell]))"

text \<open>
  The \<^verbatim>\<open>while current not in in_maze and steps < max_steps\<close> loop. It returns the final
  \<^verbatim>\<open>current\<close>, \<^verbatim>\<open>path\<close> and \<^verbatim>\<open>steps\<close>; the grid and the in-maze set are only read.
\<close>

function walk_loop ::
  "MazeGenerator \<Rightarrow> rng \<Rightarrow> cell \<Rightarrow> cell list \<Rightarrow> nat \<Rightarrow> gen_state
     \<Rightarrow> error + (cell \<times> cell list \<times> nat \<times> gen_state)" where
  "walk_loop g rs current path steps st =
     (if current \<notin> in_maze st \<and> steps < max_steps then
        (if walk_neighbors g current = [] then Inr (current, path, steps + 1, st)
         else
           (case choice rs (draws st) (walk_neighbors g current) of
              Inl e \<Rightarrow> Inl e
            | Inr (next_cell, d) \<Rightarrow>
                (case extend_path path next_cell of
                   Inl e \<Rightarrow> Inl e
                 | Inr path' \<Rightarrow>
                     walk_loop g rs next_cell path' (steps + 1)
                       (yield ''walking'' (Path path') (st\<lparr>draws := d\<rparr>)))))
      else Inr (current, path, steps, st))"
  by pat_completeness auto
termination
  by (relation "measure (\<lambda>(g, rs, current, path, steps, st). max_steps - steps)") auto

section \<open>Connecting a path and the outer loop (lines 27-73)\<close>

text \<open>
  Lines 57-70, \<^verbatim>\<open>for i in range(len(path))\<close>: clear \<^verbatim>\<open>path[i]\<close>, add it to the in-maze
  set, clear the cell half way to \<^verbatim>\<open>path[i + 1]\<close> when there is one, and yield. Python's
  \<^verbatim>\<open>//\<close> is the floor division \<open>div\<close>.
\<close>

fun connect_path :: "cell list \<Rightarrow> gen_state \<Rightarrow> error + gen_state" where
  "connect_path [] st = Inr st"
| "connect_path ((r, c) # rest) st =
     (case grid_set (cur_maze st) r c CHR '' '' of
        Inl e \<Rightarrow> Inl e
      | Inr m1 \<Rightarrow>
          (case rest of
             [] \<Rightarrow>
               connect_path rest
                 (yield ''adding_path'' (Cell (r, c))
                    (st\<lparr>cur_maze := m1, in_maze := insert (r, c) (in_maze st)\<rparr>))
           | (r2, c2) # _ \<Rightarrow>
               (case grid_set m1 ((r + r2) div 2) ((c + c2) div 2) CHR '' '' of
                  Inl e \<Rightarrow> Inl e
                | Inr m2 \<Rightarrow>
                    connect_path rest
                      (yield ''adding_path'' (Cell (r, c))
                         (st\<lparr>cur_maze := m2, in_maze := insert (r, c) (in_maze st)\<rparr>)))))"

text \<open>Lines 23-24 and the filter of lines 25 and 72.\<close>

definition all_cells :: "MazeGenerator \<Rightarrow> cell list" where
  "all_cells g = List.product (py_range 1 (height g) 2) (py_range 1 (width g) 2)"

definition remaining :: "MazeGenerator \<Rightarrow> cell set \<Rightarrow> cell list" where
  "remaining g inm = filter (\<lambda>cell. cell \<notin> inm) (all_cells g)"

text \<open>
  One iteration of \<^verbatim>\<open>while remaining_cells\<close> (lines 28-73): choose the walk's first cell,
  walk, connect the path whatever ended the walk, yield \<^verbatim>\<open>path_complete\<close>.
\<close>

definition walk_round :: "MazeGenerator \<Rightarrow> rng \<Rightarrow> cell list \<Rightarrow> gen_state \<Rightarrow> error + gen_state" where
  "walk_round g rs remaining_cells st =
     (case choice rs (draws st) remaining_cells of
        Inl e \<Rightarrow> Inl e
      | Inr (current, d) \<Rightarrow>
          (case walk_loop g rs current [current] 0
                  (yield ''walk_start'' (Cell current) (st\<lparr>draws := d\<rparr>)) of
             Inl e \<Rightarrow> Inl e
           | Inr (current', path, steps, st') \<Rightarrow>
               (case connect_path path st' of
                  Inl e \<Rightarrow> Inl e
                | Inr st'' \<Rightarrow> Inr (yield ''path_complete'' NoPayload st''))))"

function generation_loop ::
  "MazeGenerator \<Rightarrow> rng \<Rightarrow> cell list \<Rightarrow> gen_state \<Rightarrow> error + gen_state" where
  "generation_loop g rs remaining_cells st =
     (if remaining_cells = [] then Inr st
      else
        (case walk_round g rs remaining_cells st of
           Inl e \<Rightarrow> Inl e
         | Inr st' \<Rightarrow> generation_loop g rs (remaining g (in_maze st')) st'))"
  by pat_completeness auto

section \<open>Reachability (lines 117-157)\<close>

definition directions :: "cell list" where
  "directions = [(0, 1), (0, - 1), (1, 0), (- 1, 0)]"

text \<open>
  The \<^verbatim>\<open>for dr, dc in [...]\<close> loop of \<^verbatim>\<open>get_reachable_positions\<close> (lines 126-131). The
  condition is evaluated left to right, so the grid is read only for a cell inside the
  generator's dimensions that has not been visited.
\<close>

fun visit_neighbors ::
  "MazeGenerator \<Rightarrow> grid \<Rightarrow> cell \<Rightarrow> cell list \<Rightarrow> cell set \<times> cell list
     \<Rightarrow> error + (cell set \<times> cell list)" where
  "visit_neighbors g m rc [] (visited, queue) = Inr (visited, queue)"
| "visit_neighbors g m rc ((dr, dc) # ds) (visited, queue) =
     (let nr = fst rc + dr; nc = snd rc + dc in
      if 0 \<le> nr \<and> nr < height g \<and> 0 \<le> nc \<and> nc < width g \<and> (nr, nc) \<notin> visited then
        (case grid_get m nr nc of
           Inl e \<Rightarrow> Inl e
         | Inr ch \<Rightarrow>
             if ch \<noteq> CHR ''#'' then
               visit_neighbors g m rc ds (insert (nr, nc) visited, queue @ [(nr, nc)])
             else visit_neighbors g m rc ds (visited, queue))
      else visit_neighbors g m rc ds (visited, queue))"

text \<open>The \<^verbatim>\<open>while queue\<close> loop of \<^verbatim>\<open>get_reachable_positions\<close>.\<close>

function reachable_loop ::
  "MazeGenerator \<Rightarrow> grid \<Rightarrow> cell set \<Rightarrow> cell list \<Rightarrow> error + cell set" where
  "reachable_loop g m visited [] = Inr visited"
| "reachable_loop g m visited (rc # rest) =
     (case visit_neighbors g m rc directions (visited, rest) of
        Inl e \<Rightarrow> Inl e
      | Inr (visited', queue') \<Rightarrow> reachable_loop g m visited' queue')"
  by pat_completeness auto

definition get_reachable_positions ::
  "MazeGenerator \<Rightarrow> grid \<Rightarrow> cell \<Rightarrow> error + cell set" where
  "get_reachable_positions g m start = reachable_loop g m {start} [start]"

text \<open>The same inner loop in \<^verbatim>\<open>find_furthest_cell\<close> (lines 150-155), with distances.\<close>

fun visit_neighbors_dist ::
  "MazeGenerator \<Rightarrow> grid \<Rightarrow> cell \<Rightarrow> nat \<Rightarrow> cell list \<Rightarrow> cell set \<times> (cell \<times> nat) list
     \<Rightarrow> error + (cell set \<times> (cell \<times> nat) list)" where
  "visit_neighbors_dist g m rc distance [] (visited, queue) = Inr (visited, queue)"
| "visit_neighbors_dist g m rc distance ((dr, dc) # ds) (visited, queue) =
     (let nr = fst rc + dr; nc = snd rc + dc in
      if 0 \<le> nr \<and> nr < height g \<and> 0 \<le> nc \<and> nc < width g \<and> (nr, nc) \<notin> visited then
        (case grid_get m nr nc of
           Inl e \<Rightarrow> Inl e
         | Inr ch \<Rightarrow>
             if ch \<noteq> CHR ''#'' then
               visit_neighbors_dist g m rc distance ds
                 (insert (nr, nc) visited, queue @ [((nr, nc), distance + 1)])
             else visit_neighbors_dist g m rc distance ds (visited, queue))
      else visit_neighbors_dist g m rc distance ds (visited, queue))"

text \<open>
  The \<^verbatim>\<open>while queue\<close> loop of \<^verbatim>\<open>find_furthest_cell\<close> (lines 143-155). Besides the
  source's variables it records \<open>taken\<close>, the entries in the order in which they left the
  queue; the loop never reads it. A first-in first-out queue hands the cells out in the
  order in which they were discovered, so \<open>taken\<close> is the order of discovery.
\<close>

function furthest_loop ::
  "MazeGenerator \<Rightarrow> grid \<Rightarrow> cell set \<Rightarrow> (cell \<times> nat) list \<Rightarrow> cell \<Rightarrow> nat
     \<Rightarrow> (cell \<times> nat) list \<Rightarrow> error + (cell \<times> (cell \<times> nat) list)" where
  "furthest_loop g m visited [] furthest_cell max_distance taken = Inr (furthest_cell, taken)"
| "furthest_loop g m visited ((rc, distance) # rest) furthest_cell max_distance taken =
     (case visit_neighbors_dist g m rc distance directions (visited, rest) of
        Inl e \<Rightarrow> Inl e
      | Inr (visited', queue') \<Rightarrow>
          (if distance > max_distance then
             furthest_loop g m visited' queue' rc distance (taken @ [(rc, distance)])
           else
             furthest_loop g m visited' queue' furthest_cell max_distance
               (taken @ [(rc, distance)])))"
  by pat_completeness auto

definition furthest_run ::
  "MazeGenerator \<Rightarrow> grid \<Rightarrow> cell \<Rightarrow> error + (cell \<times> (cell \<times> nat) list)" where
  "furthest_run g m start = furthest_loop g m {start} [(start, 0)] start 0 []"

definition find_furthest_cell :: "MazeGenerator \<Rightarrow> grid \<Rightarrow> cell \<Rightarrow> error + cell" where
  "find_furthest_cell g m start =
     (case furthest_run g m start of Inl e \<Rightarrow> Inl e | Inr (furthest_cell, taken) \<Rightarrow> Inr furthest_cell)"

section \<open>Goal placement (lines 79-85 and 94-115)\<close>

text \<open>
  The two nested scans of \<^verbatim>\<open>place_connected_goal\<close> return at the first candidate that
  is reachable and not the start: the first such element of the candidates in loop
  order. The result is the grid and the returned flag.
\<close>

definition place_connected_goal :: "MazeGenerator \<Rightarrow> grid \<Rightarrow> error + (grid \<times> bool)" where
  "place_connected_goal g m =
     (case get_reachable_positions g m (1, 1) of
        Inl e \<Rightarrow> Inl e
      | Inr reachable \<Rightarrow>
          (case find (\<lambda>rc. rc \<in> reachable \<and> rc \<noteq> (1, 1))
                  (List.product (py_range (height g - 2) 0 (- 2))
                                (py_range (width g - 2) 0 (- 2))) of
             Some (r, c) \<Rightarrow>
               (case grid_set m r c CHR ''B'' of Inl e \<Rightarrow> Inl e | Inr m' \<Rightarrow> Inr (m', True))
           | None \<Rightarrow>
               (case find (\<lambda>rc. rc \<in> reachable \<and> rc \<noteq> (1, 1))
                       (List.product (py_range (height g - 2) 0 (- 1))
                                     (py_range (width g - 2) 0 (- 1))) of
                  Some (r, c) \<Rightarrow>
                    (case grid_set m r c CHR ''B'' of
                       Inl e \<Rightarrow> Inl e
                     | Inr m' \<Rightarrow> Inr (m', True))
                | None \<Rightarrow> Inr (m, False))))"

text \<open>
  Lines 79-85: the scan, then the fallback to the furthest cell. A Python tuple of two
  numbers is always true, so \<^verbatim>\<open>if furthest_cell and furthest_cell != (1, 1)\<close> tests the
  inequality only.
\<close>

definition place_goal :: "MazeGenerator \<Rightarrow> grid \<Rightarrow> error + grid" where
  "place_goal g m =
     (case place_connected_goal g m of
        Inl e \<Rightarrow> Inl e
      | Inr (m', goal_placed) \<Rightarrow>
          if \<not> goal_placed then
            (case find_furthest_cell g m' (1, 1) of
               Inl e \<Rightarrow> Inl e
             | Inr furthest_cell \<Rightarrow>
                 if furthest_cell \<noteq> (1, 1) then
                   grid_set m' (fst furthest_cell) (snd furthest_cell) CHR ''B''
                 else Inr m')
          else Inr m')"

section \<open>Multiple solution paths (lines 159-183)\<close>

text \<open>
  The tests of lines 167-168 and 174-175; \<^verbatim>\<open>and\<close> stops at the first false operand, so
  a later cell is read only when the earlier ones are open.
\<close>

definition horizontal_wall :: "grid \<Rightarrow> cell \<Rightarrow> error + bool" where
  "horizontal_wall m rc =
     (case grid_get m (fst rc - 1) (snd rc) of
        Inl e \<Rightarrow> Inl e
      | Inr a \<Rightarrow>
          if a \<noteq> CHR '' '' then Inr False
          else
            (case grid_get m (fst rc + 1) (snd rc) of
               Inl e \<Rightarrow> Inl e
             | Inr b \<Rightarrow>
                 if b \<noteq> CHR '' '' then Inr False
                 else
                   (case grid_get m (fst rc) (snd rc) of
                      Inl e \<Rightarrow> Inl e
                    | Inr w \<Rightarrow> Inr (w = CHR ''#''))))"

definition vertical_wall :: "grid \<Rightarrow> cell \<Rightarrow> error + bool" where
  "vertical_wall m rc =
     (case grid_get m (fst rc) (snd rc - 1) of
        Inl e \<Rightarrow> Inl e
      | Inr a \<Rightarrow>
          if a \<noteq> CHR '' '' then Inr False
          else
            (case grid_get m (fst rc) (snd rc + 1) of
               Inl e \<Rightarrow> Inl e
             | Inr b \<Rightarrow>
                 if b \<noteq> CHR '' '' then Inr False
                 else
                   (case grid_get m (fst rc) (snd rc) of
                      Inl e \<Rightarrow> Inl e
                    | Inr w \<Rightarrow> Inr (w = CHR ''#''))))"

text \<open>A scan that appends to \<^verbatim>\<open>walls_to_remove\<close> every candidate passing the test.\<close>

fun collect_walls ::
  "(cell \<Rightarrow> error + bool) \<Rightarrow> cell list \<Rightarrow> cell list \<Rightarrow> error + cell list" where
  "collect_walls test [] walls_to_remove = Inr walls_to_remove"
| "collect_walls test (rc # rcs) walls_to_remove =
     (case test rc of
        Inl e \<Rightarrow> Inl e
      | Inr b \<Rightarrow> collect_walls test rcs (if b then walls_to_remove @ [rc] else walls_to_remove))"

text \<open>Lines 182-183: \<^verbatim>\<open>for r, c in walls_to_remove: maze[r][c] = ' '\<close>.\<close>

fun clear_walls :: "cell list \<Rightarrow> grid \<Rightarrow> error + grid" where
  "clear_walls [] m = Inr m"
| "clear_walls ((r, c) # rcs) m =
     (case grid_set m r c CHR '' '' of Inl e \<Rightarrow> Inl e | Inr m' \<Rightarrow> clear_walls rcs m')"

definition add_multiple_paths ::
  "MazeGenerator \<Rightarrow> rng \<Rightarrow> nat \<Rightarrow> grid \<Rightarrow> error + (grid \<times> nat)" where
  "add_multiple_paths g rs pos m =
     (case collect_walls (horizontal_wall m)
             (List.product (py_range 2 (height g - 1) 2) (py_range 1 (width g - 1) 2)) [] of
        Inl e \<Rightarrow> Inl e
      | Inr walls1 \<Rightarrow>
          (case collect_walls (vertical_wall m)
                  (List.product (py_range 1 (height g - 1) 2) (py_range 2 (width g - 1) 2))
                  walls1 of
             Inl e \<Rightarrow> Inl e
           | Inr walls_to_remove \<Rightarrow>
               (let num_to_remove = length walls_to_remove div 8 in
                if num_to_remove > 0 then
                  (case sample rs pos walls_to_remove num_to_remove of
                     Inl e \<Rightarrow> Inl e
                   | Inr (chosen, pos') \<Rightarrow>
                       (case clear_walls chosen m of
                          Inl e \<Rightarrow> Inl e
                        | Inr m' \<Rightarrow> Inr (m', pos')))
                else Inr (m, pos))))"

section \<open>The generator (lines 14-92)\<close>

text \<open>
  A whole run of \<^verbatim>\<open>wilson_algorithm_generator\<close> driven to exhaustion: the generator
  object with \<^verbatim>\<open>self.maze\<close> set, and the events in the order they were yielded. A run
  that raises is \<open>Inl\<close>.
\<close>

definition wilson_algorithm_generator ::
  "MazeGenerator \<Rightarrow> rng \<Rightarrow> error + (MazeGenerator \<times> event list)" where
  "wilson_algorithm_generator g rs =
     (case grid_set (replicate (nat (height g)) (replicate (nat (width g)) CHR ''#''))
             1 1 CHR '' '' of
        Inl e \<Rightarrow> Inl e
      | Inr maze1 \<Rightarrow>
          (case generation_loop g rs (remaining g {(1, 1)})
                  (yield ''initial'' (Cell (1, 1))
                     \<lparr>cur_maze = maze1, in_maze = {(1, 1)}, draws = 0, yielded = []\<rparr>) of
             Inl e \<Rightarrow> Inl e
           | Inr st \<Rightarrow>
               (case grid_set (cur_maze st) 1 1 CHR ''A'' of
                  Inl e \<Rightarrow> Inl e
                | Inr maze2 \<Rightarrow>
                    (case place_goal g maze2 of
                       Inl e \<Rightarrow> Inl e
                     | Inr maze3 \<Rightarrow>
                         (case (if multiple_solutions g
                                then add_multiple_paths g rs (draws st) maze3
                                else Inr (maze3, draws st)) of
                            Inl e \<Rightarrow> Inl e
                          | Inr (maze4, d) \<Rightarrow>
                              Inr (g\<lparr>maze := Some maze4\<rparr>,
                                   yielded st @ [(maze4, ''complete'', NoPayload)]))))))"

section \<open>Notions used to state the properties\<close>

text \<open>
  A grid has the generator's shape when it has \<open>height\<close> rows of \<open>width\<close> cells, as the
  grid allocated on line 16 has. A cell is interior when it lies strictly inside the
  border, the range the walk's neighbours are taken from (line 40).
\<close>

definition grid_ok :: "MazeGenerator \<Rightarrow> grid \<Rightarrow> bool" where
  "grid_ok g m \<longleftrightarrow> length m = nat (height g) \<and> (\<forall>row \<in> set m. length row = nat (width g))"

definition interior :: "MazeGenerator \<Rightarrow> cell \<Rightarrow> bool" where
  "interior g rc \<longleftrightarrow> 1 \<le> fst rc \<and> fst rc < height g - 1 \<and> 1 \<le> snd rc \<and> snd rc < width g - 1"

text \<open>
  One step of the walk on the path, as the loop-erasure property states it: a neighbour
  that occurs in the path at first index \<open>i\<close> leaves exactly the first \<open>i + 1\<close> cells,
  any other neighbour is appended.
\<close>


definition loop_erased_step :: "cell list \<Rightarrow> cell \<Rightarrow> cell list \<Rightarrow> bool" where
  "loop_erased_step path next_cell path' \<longleftrightarrow>
     (if next_cell \<in> set path then
        (\<exists>i<length path. path ! i = next_cell \<and> (\<forall>j<i. path ! j \<noteq> next_cell) \<and>
           path' = take (i + 1) path \<and> length path' = i + 1)
      else path' = path @ [next_cell])"

text \<open>
  A sequence of paths in which each path arises from the one before by one such step,
  taken towards a neighbour (line 40) of the cell the previous path ends at.
\<close>

fun walk_chain :: "MazeGenerator \<Rightarrow> cell list list \<Rightarrow> bool" where
  "walk_chain g (p # q # rest) =
     (q \<noteq> [] \<and> last q \<in> set (walk_neighbors g (last p)) \<and>
      loop_erased_step p (last q) q \<and> walk_chain g (q # rest))"
| "walk_chain g [p] = True"
| "walk_chain g [] = True"

text \<open>The event yielded on line 54.\<close>

definition walking_event :: "grid \<Rightarrow> cell list \<Rightarrow> event" where
  "walking_event m p = (m, ''walking'', Path p)"

text \<open>
  The graph the two traversals walk: a cell can be entered when it lies inside the
  generator's dimensions and the grid holds something other than a wall there (lines
  128-129); its neighbours are the four cells of \<open>directions\<close>.
\<close>

definition in_grid :: "MazeGenerator \<Rightarrow> cell \<Rightarrow> bool" where
  "in_grid g rc \<longleftrightarrow> 0 \<le> fst rc \<and> fst rc < height g \<and> 0 \<le> snd rc \<and> snd rc < width g"

definition open_cell :: "MazeGenerator \<Rightarrow> grid \<Rightarrow> cell \<Rightarrow> bool" where
  "open_cell g m rc \<longleftrightarrow>
     in_grid g rc \<and>
     (case grid_get m (fst rc) (snd rc) of Inl e \<Rightarrow> False | Inr ch \<Rightarrow> ch \<noteq> CHR ''#'')"

definition shift :: "cell \<Rightarrow> cell \<Rightarrow> cell" where
  "shift rc d = (fst rc + fst d, snd rc + snd d)"

definition adjacent :: "MazeGenerator \<Rightarrow> grid \<Rightarrow> cell \<Rightarrow> cell \<Rightarrow> bool" where
  "adjacent g m u v \<longleftrightarrow> v \<in> set (map (shift u) directions) \<and> open_cell g m v"

section \<open>Construction\<close>

text \<open>
  C3 as stated fails: a request of width 1 and height 1 stays 1 x 1 after rounding, which is
  below 3, and construction still returns a generator object instead of an error.
\<close>

theorem init_small_not_rejected:
  "round_up_odd 1 < 3 \<and>
   MazeGenerator_init 1 1 False =
     Inr \<lparr> width = 1, height = 1, multiple_solutions = False, maze = None \<rparr>"
  by (simp add: MazeGenerator_init_def round_up_odd_def)

text \<open>
  C3 amended: construction never fails. For every requested width and height it returns a
  generator whose dimensions are the requested ones rounded up to the nearest odd value,
  with no lower bound checked, the requested mode and no maze yet.
\<close>

theorem init_always_succeeds:
  "MazeGenerator_init w h ms =
     Inr \<lparr> width = round_up_odd w, height = round_up_odd h,
           multiple_solutions = ms, maze = None \<rparr>"
  by (simp add: MazeGenerator_init_def round_up_odd_def odd_iff_mod_2_eq_one)

section \<open>Basic facts about the list, grid and random operations\<close>

lemma choice_nonempty:
  "xs \<noteq> [] \<Longrightarrow> choice rs pos xs = Inr (xs ! (rs pos mod length xs), Suc pos)"
  by (simp add: choice_def)

lemma choice_Inr:
  "choice rs pos xs = Inr (x, d) \<Longrightarrow> x \<in> set xs \<and> d = Suc pos"
  by (auto simp: choice_def split: if_splits)

lemma list_index_mem:
  "x \<in> set xs \<Longrightarrow>
   \<exists>i. list_index xs x = Inr i \<and> i < length xs \<and> xs ! i = x \<and> (\<forall>j<i. xs ! j \<noteq> x)"
proof (induction xs)
  case Nil
  then show ?case by simp
next
  case (Cons y ys)
  show ?case
  proof (cases "y = x")
    case True
    then show ?thesis by simp
  next
    case False
    with Cons.prems have "x \<in> set ys" by simp
    from Cons.IH [OF this] obtain i where i: "list_index ys x = Inr i" "i < length ys"
      "ys ! i = x" "\<forall>j<i. ys ! j \<noteq> x" by blast
    have "\<forall>j<Suc i. (y # ys) ! j \<noteq> x"
      using False i(4) by (auto simp: nth_Cons split: nat.splits)
    with False i show ?thesis by simp
  qed
qed

lemma extend_path_cases:
  "(next_cell \<in> set path \<and>
      (\<exists>i<length path. path ! i = next_cell \<and> (\<forall>j<i. path ! j \<noteq> next_cell) \<and>
          extend_path path next_cell = Inr (take (i + 1) path))) \<or>
   (next_cell \<notin> set path \<and> extend_path path next_cell = Inr (path @ [next_cell]))"
proof (cases "next_cell \<in> set path")
  case True
  from list_index_mem [OF this] show ?thesis
    using True by (auto simp: extend_path_def)
next
  case False
  then show ?thesis by (simp add: extend_path_def)
qed

lemma walk_loop_invariant:
  assumes "walk_loop g rs current path steps st = Inr (current', path', steps', st')"
    and "P current path st"
    and "\<And>cur p s nxt p'. P cur p s \<Longrightarrow> cur \<notin> in_maze s \<Longrightarrow> nxt \<in> set (walk_neighbors g cur) \<Longrightarrow>
           extend_path p nxt = Inr p' \<Longrightarrow>
           P nxt p' (yield ''walking'' (Path p') (s\<lparr>draws := Suc (draws s)\<rparr>))"
  shows "P current' path' st'"
  using assms
proof (induction g rs current path steps st rule: walk_loop.induct)
  case (1 g rs current path steps st)
  show ?case
  proof (cases "current \<notin> in_maze st \<and> steps < max_steps")
    case False
    with "1.prems" show ?thesis by (simp split: if_splits)
  next
    case True
    note go = this
    show ?thesis
    proof (cases "walk_neighbors g current = []")
      case True
      with go "1.prems" show ?thesis by simp
    next
      case False
      obtain nxt where ch: "choice rs (draws st) (walk_neighbors g current) = Inr (nxt, Suc (draws st))"
        and mem: "nxt \<in> set (walk_neighbors g current)"
        using False by (simp add: choice_nonempty)
      from extend_path_cases [of nxt path] obtain p' where ext: "extend_path path nxt = Inr p'"
        by blast
      have P': "P nxt p' (yield ''walking'' (Path p') (st\<lparr>draws := Suc (draws st)\<rparr>))"
        using "1.prems"(3) [OF "1.prems"(2) _ mem ext] go by simp
      have run: "walk_loop g rs nxt p' (steps + 1) (yield ''walking'' (Path p') (st\<lparr>draws := Suc (draws st)\<rparr>))
          = Inr (current', path', steps', st')"
        using "1.prems"(1) go False ch ext by simp
      show ?thesis
        using "1.IH" [OF go False ch _ ext run P' "1.prems"(3)] by simp
    qed
  qed
qed

lemma walk_loop_returns:
  "\<exists>res. walk_loop g rs current path steps st = Inr res"
proof (induction g rs current path steps st rule: walk_loop.induct)
  case (1 g rs current path steps st)
  show ?case
  proof (cases "current \<notin> in_maze st \<and> steps < max_steps")
    case False
    then show ?thesis by auto
  next
    case True
    note go = this
    show ?thesis
    proof (cases "walk_neighbors g current = []")
      case True
      with go show ?thesis by simp
    next
      case False
      obtain nxt where ch: "choice rs (draws st) (walk_neighbors g current) = Inr (nxt, Suc (draws st))"
        using False by (simp add: choice_nonempty)
      from extend_path_cases [of nxt path] obtain p' where ext: "extend_path path nxt = Inr p'"
        by blast
      from "1.IH" [OF go False ch _ ext] go False ch ext show ?thesis by simp
    qed
  qed
qed


lemma py_index_nonneg:
  "0 \<le> i \<Longrightarrow> py_index n i = (if i < int n then Inr (nat i) else Inl IndexError)"
  by (simp add: py_index_def)

lemma grid_set_ok:
  assumes "grid_ok g m" "0 \<le> r" "r < height g" "0 \<le> c" "c < width g"
  shows "\<exists>m'. grid_set m r c v = Inr m' \<and> grid_ok g m'"
proof -
  have r: "nat r < length m" using assms by (simp add: grid_ok_def)
  then have "length (m ! nat r) = nat (width g)" using assms(1) by (simp add: grid_ok_def)
  then have c: "nat c < length (m ! nat r)" using assms by simp
  have ri: "r < int (length m)" and ci: "c < int (length (m ! nat r))"
    using r c assms by linarith+
  have "grid_set m r c v = Inr (m[nat r := (m ! nat r)[nat c := v]])"
    using ri ci assms by (simp add: grid_set_def py_index_nonneg)
  moreover have "grid_ok g (m[nat r := (m ! nat r)[nat c := v]])"
    using assms(1) r by (auto simp: grid_ok_def dest!: set_update_subset_insert [THEN subsetD])
  ultimately show ?thesis by blast
qed

lemma grid_get_ok:
  assumes "grid_ok g m" "0 \<le> r" "r < height g" "0 \<le> c" "c < width g"
  shows "grid_get m r c = Inr (m ! nat r ! nat c)"
proof -
  have r: "nat r < length m" using assms by (simp add: grid_ok_def)
  then have "length (m ! nat r) = nat (width g)" using assms(1) by (simp add: grid_ok_def)
  then have c: "nat c < length (m ! nat r)" using assms by simp
  have ri: "r < int (length m)" and ci: "c < int (length (m ! nat r))"
    using r c assms by linarith+
  show ?thesis using ri ci assms by (simp add: grid_get_def py_index_nonneg)
qed

lemma grid_set_Inr:
  assumes "grid_set m r c v = Inr m'" "0 \<le> r" "0 \<le> c"
  shows "nat r < length m \<and> nat c < length (m ! nat r) \<and> m' = m[nat r := (m ! nat r)[nat c := v]]"
  using assms by (auto simp: grid_set_def py_index_nonneg split: if_splits)

lemma grid_get_set:
  assumes "grid_set m r c v = Inr m'" "0 \<le> r" "0 \<le> c" "0 \<le> r'" "0 \<le> c'"
  shows "grid_get m' r' c' = (if r' = r \<and> c' = c then Inr v else grid_get m r' c')"
proof -
  from grid_set_Inr [OF assms(1-3)] have r: "nat r < length m" and c: "nat c < length (m ! nat r)"
    and m': "m' = m[nat r := (m ! nat r)[nat c := v]]" by auto
  show ?thesis
  proof (cases "r' = r")
    case True
    show ?thesis
      using r c assms(2-5) True
      by (auto simp: m' grid_get_def py_index_nonneg nth_list_update)
  next
    case False
    then have "nat r' \<noteq> nat r" using assms by auto
    then show ?thesis
      using False by (simp add: m' grid_get_def py_index_nonneg assms)
  qed
qed

lemma grid_set_same_ok:
  assumes "grid_set m r c v = Inr m'" "0 \<le> r" "0 \<le> c" "grid_ok g m"
  shows "grid_ok g m'"
proof -
  from grid_set_Inr [OF assms(1-3)] have r: "nat r < length m"
    and m': "m' = m[nat r := (m ! nat r)[nat c := v]]" by auto
  show ?thesis using assms(4) r unfolding m'
    by (auto simp: grid_ok_def dest!: set_update_subset_insert [THEN subsetD])
qed


lemma yield_simps [simp]:
  "cur_maze (yield t p st) = cur_maze st"
  "in_maze (yield t p st) = in_maze st"
  "draws (yield t p st) = draws st"
  "yielded (yield t p st) = yielded st @ [(cur_maze st, t, p)]"
  by (simp_all add: yield_def)

lemma connect_path_in_maze:
  "connect_path path st = Inr st' \<Longrightarrow> in_maze st' = in_maze st \<union> set path \<and> draws st' = draws st"
proof (induction path arbitrary: st)
  case Nil
  then show ?case by simp
next
  case (Cons rc rest)
  obtain r c where rc: "rc = (r, c)" by (cases rc)
  from Cons.prems rc obtain m1 where m1: "grid_set (cur_maze st) r c CHR '' '' = Inr m1"
    by (cases "grid_set (cur_maze st) r c CHR '' ''") simp_all
  show ?case
  proof (cases rest)
    case Nil
    with Cons.prems rc m1 show ?thesis by auto
  next
    case (Cons rc2 rest2)
    obtain r2 c2 where rc2: "rc2 = (r2, c2)" by (cases rc2)
    from Cons.prems rc m1 Cons rc2 obtain m2 where
      m2: "grid_set m1 ((r + r2) div 2) ((c + c2) div 2) CHR '' '' = Inr m2"
      by (cases "grid_set m1 ((r + r2) div 2) ((c + c2) div 2) CHR '' ''") simp_all
    have run: "connect_path rest (yield ''adding_path'' (Cell (r, c))
              (st\<lparr>cur_maze := m2, in_maze := insert (r, c) (in_maze st)\<rparr>)) = Inr st'"
      using Cons.prems rc m1 Cons rc2 m2 by simp
    from Cons.IH [OF run] rc show ?thesis by simp
  qed
qed

lemma extend_path_hd:
  assumes "extend_path p n = Inr p'" "p \<noteq> []"
  shows "p' \<noteq> [] \<and> hd p' = hd p"
  using extend_path_cases [of n p] assms by (auto simp: hd_take)

lemma walk_loop_keeps:
  assumes "walk_loop g rs current path steps st = Inr (current', path', steps', st')"
    and "path \<noteq> []"
  shows "path' \<noteq> [] \<and> hd path' = hd path \<and> in_maze st' = in_maze st \<and> cur_maze st' = cur_maze st"
proof -
  have "(\<lambda>c p s. p \<noteq> [] \<and> hd p = hd path \<and> in_maze s = in_maze st \<and> cur_maze s = cur_maze st)
          current' path' st'"
    by (rule walk_loop_invariant [OF assms(1)]) (use assms(2) extend_path_hd in auto)
  then show ?thesis by simp
qed

lemma walk_round_Inr:
  assumes "walk_round g rs remaining_cells st = Inr st'"
  obtains current current' path steps st1 st2 where
    "choice rs (draws st) remaining_cells = Inr (current, Suc (draws st))"
    "current \<in> set remaining_cells"
    "walk_loop g rs current [current] 0
        (yield ''walk_start'' (Cell current) (st\<lparr>draws := Suc (draws st)\<rparr>))
       = Inr (current', path, steps, st1)"
    "connect_path path st1 = Inr st2"
    "st' = yield ''path_complete'' NoPayload st2"
proof -
  from assms obtain p where ch: "choice rs (draws st) remaining_cells = Inr p"
    by (cases "choice rs (draws st) remaining_cells") (simp_all add: walk_round_def)
  obtain current d where p: "p = (current, d)" by (cases p)
  from choice_Inr [OF ch [unfolded p]] have mem: "current \<in> set remaining_cells"
    and d: "d = Suc (draws st)" by simp_all
  let ?st0 = "yield ''walk_start'' (Cell current) (st\<lparr>draws := Suc (draws st)\<rparr>)"
  from walk_loop_returns obtain res where wl: "walk_loop g rs current [current] 0 ?st0 = Inr res"
    by blast
  obtain current' path steps st1 where res: "res = (current', path, steps, st1)"
    by (cases res)
  from assms ch p d wl res obtain st2 where cp: "connect_path path st1 = Inr st2"
    by (cases "connect_path path st1") (simp_all add: walk_round_def)
  have "st' = yield ''path_complete'' NoPayload st2"
    using assms ch p d wl res cp by (simp add: walk_round_def)
  with that ch p d mem wl res cp show thesis by blast
qed

lemma walk_round_grows:
  assumes "walk_round g rs remaining_cells st = Inr st'"
  shows "\<exists>current. current \<in> set remaining_cells \<and> current \<in> in_maze st' \<and> in_maze st \<subseteq> in_maze st'"
proof -
  from assms obtain current current' path steps st1 st2 where
    mem: "current \<in> set remaining_cells"
    and wl: "walk_loop g rs current [current] 0
        (yield ''walk_start'' (Cell current) (st\<lparr>draws := Suc (draws st)\<rparr>))
       = Inr (current', path, steps, st1)"
    and cp: "connect_path path st1 = Inr st2"
    and st': "st' = yield ''path_complete'' NoPayload st2"
    by (rule walk_round_Inr)
  from walk_loop_keeps [OF wl] have p: "path \<noteq> []" "hd path = current" and i1: "in_maze st1 = in_maze st"
    by simp_all
  from connect_path_in_maze [OF cp] have i2: "in_maze st2 = in_maze st1 \<union> set path" by simp
  from p have "current \<in> set path" by (metis hd_in_set)
  with mem i1 i2 show ?thesis unfolding st' by (intro exI [of _ current]) auto
qed

lemma filter_notin_length_mono:
  "A \<subseteq> B \<Longrightarrow> length (filter (\<lambda>c. c \<notin> B) xs) \<le> length (filter (\<lambda>c. c \<notin> A) xs)"
  by (induction xs) (auto simp: le_SucI)

lemma remaining_length_mono:
  "A \<subseteq> B \<Longrightarrow> length (remaining g B) \<le> length (remaining g A)"
  unfolding remaining_def by (rule filter_notin_length_mono)

lemma filter_notin_length_less:
  "A \<subseteq> B \<Longrightarrow> x \<in> set xs \<Longrightarrow> x \<notin> A \<Longrightarrow> x \<in> B \<Longrightarrow>
   length (filter (\<lambda>c. c \<notin> B) xs) < length (filter (\<lambda>c. c \<notin> A) xs)"
proof (induction xs)
  case Nil
  then show ?case by simp
next
  case (Cons y ys)
  have le: "length (filter (\<lambda>c. c \<notin> B) ys) \<le> length (filter (\<lambda>c. c \<notin> A) ys)"
    using Cons.prems(1) by (rule filter_notin_length_mono)
  show ?case
  proof (cases "y = x")
    case True
    with Cons.prems le show ?thesis by (simp add: less_Suc_eq_le)
  next
    case False
    with Cons.prems have "x \<in> set ys" by simp
    from Cons.IH [OF Cons.prems(1) this Cons.prems(3,4)] Cons.prems(1) show ?thesis by auto
  qed
qed

lemma remaining_length_less:
  "A \<subseteq> B \<Longrightarrow> x \<in> set (remaining g A) \<Longrightarrow> x \<in> B \<Longrightarrow>
   length (remaining g B) < length (remaining g A)"
  unfolding remaining_def by (rule filter_notin_length_less) auto

lemma generation_loop_measure:
  assumes "walk_round g rs remaining_cells st = Inr st'"
  shows "2 * length (remaining g (in_maze st')) <
        2 * length (remaining g (in_maze st)) +
          (if remaining_cells = remaining g (in_maze st) then 0 else Suc 0)"
proof -
  from walk_round_grows [OF assms] obtain current where
    cur: "current \<in> set remaining_cells" "current \<in> in_maze st'" and sub: "in_maze st \<subseteq> in_maze st'"
    by blast
  show ?thesis
  proof (cases "remaining_cells = remaining g (in_maze st)")
    case True
    with cur have "current \<in> set (remaining g (in_maze st))" by simp
    then have "length (remaining g (in_maze st')) < length (remaining g (in_maze st))"
      using remaining_length_less [OF sub _ cur(2)] by blast
    then show ?thesis by linarith
  next
    case False
    have "length (remaining g (in_maze st')) \<le> length (remaining g (in_maze st))"
      by (rule remaining_length_mono [OF sub])
    then show ?thesis using False by simp
  qed
qed

termination generation_loop
  apply (relation "measure (\<lambda>(g, rs, remaining_cells, st).
          2 * length (remaining g (in_maze st)) +
          (if remaining_cells = remaining g (in_maze st) then 0 else Suc 0))")
   apply (rule wf_measure)
  apply (simp only: in_measure prod.case if_True refl add_0_right)
  apply (erule generation_loop_measure)
  done

text \<open>The loops are unfolded explicitly, never by the simplifier on its own.\<close>

declare walk_loop.simps [simp del]
declare generation_loop.simps [simp del]

section \<open>The random walk and loop erasure\<close>

lemma extend_path_step:
  assumes "extend_path p nxt = Inr p'"
  shows "p' \<noteq> [] \<and> last p' = nxt \<and> loop_erased_step p nxt p' \<and> (distinct p \<longrightarrow> distinct p')"
proof (cases "nxt \<in> set p")
  case True
  with extend_path_cases [of nxt p] assms obtain i where i: "i < length p" "p ! i = nxt"
    "\<forall>j<i. p ! j \<noteq> nxt" "p' = take (i + 1) p" by auto
  have len: "length p' = i + 1" using i by simp
  have "last p' = p ! i" using i(1) unfolding i(4) by (simp add: take_Suc_conv_app_nth)
  moreover have "p' \<noteq> []" using len by auto
  moreover have "loop_erased_step p nxt p'"
    unfolding loop_erased_step_def using True i len by auto
  ultimately show ?thesis using i by auto
next
  case False
  with extend_path_cases [of nxt p] assms have "p' = p @ [nxt]" by auto
  with False show ?thesis by (simp add: loop_erased_step_def)
qed

lemma walk_chain_snoc:
  assumes "walk_chain g xs" "xs \<noteq> []" "q \<noteq> []"
    "last q \<in> set (walk_neighbors g (last (last xs)))" "loop_erased_step (last xs) (last q) q"
  shows "walk_chain g (xs @ [q])"
  using assms
proof (induction g xs rule: walk_chain.induct)
  case (1 g p q' rest)
  then show ?case by simp
next
  case (2 g p)
  then show ?case by simp
next
  case (3 g)
  then show ?case by simp
qed

text \<open>
  C6. Every walk that starts from a path without repetitions ending at the current cell
  yields one \<open>walking\<close> event per step, all carrying the unchanged grid. Each yielded
  path arises from the previous one by truncation to the first \<open>i + 1\<close> cells when the
  chosen neighbour occurs at first index \<open>i\<close>, and by appending it otherwise; every
  one of these paths, and the path the walk ends with, is free of repetitions.
\<close>

theorem walk_path_loop_erased:
  assumes "walk_loop g rs current path steps st = Inr (current', path', steps', st')"
    and "path \<noteq> []" and "last path = current" and "distinct path"
  shows "\<exists>ps. yielded st' = yielded st @ map (walking_event (cur_maze st)) ps \<and>
           walk_chain g (path # ps) \<and> (\<forall>q \<in> set (path # ps). distinct q) \<and>
           path' = last (path # ps) \<and> distinct path'"
proof -
  let ?P = "\<lambda>cur p s. \<exists>ps. yielded s = yielded st @ map (walking_event (cur_maze st)) ps \<and>
      cur_maze s = cur_maze st \<and> walk_chain g (path # ps) \<and>
      (\<forall>q \<in> set (path # ps). distinct q) \<and> p = last (path # ps) \<and> p \<noteq> [] \<and> last p = cur"
  have "?P current' path' st'"
  proof (rule walk_loop_invariant [OF assms(1)], goal_cases)
    case 1
    show ?case by (rule exI [of _ "[]"]) (use assms in simp)
  next
    case (2 cur p s nxt p')
    then obtain ps where ps: "yielded s = yielded st @ map (walking_event (cur_maze st)) ps"
      "cur_maze s = cur_maze st" "walk_chain g (path # ps)" "\<forall>q \<in> set (path # ps). distinct q"
      "p = last (path # ps)" "p \<noteq> []" "last p = cur" by blast
    from extend_path_step [OF 2(4)] have e: "p' \<noteq> []" "last p' = nxt" "loop_erased_step p nxt p'"
      "distinct p \<longrightarrow> distinct p'" by simp_all
    have dp: "distinct p" using ps(4,5) by (metis last_in_set list.distinct(1))
    have chain: "walk_chain g ((path # ps) @ [p'])"
      by (rule walk_chain_snoc [OF ps(3)]) (use e ps 2(3) in simp_all)
    show ?case
      by (rule exI [of _ "ps @ [p']"])
        (use ps e dp chain in \<open>simp add: walking_event_def\<close>)
  qed
  then show ?thesis by (metis last_in_set list.distinct(1))
qed


text \<open>
  A walk on the 3 x 7 grid: from (1, 5) to (1, 3), back to (1, 5), which erases the
  loop, again to (1, 3) and on to (1, 1), which is in the maze.
\<close>

lemma walk_neighbors_3x7:
  "walk_neighbors \<lparr>width = 7, height = 3, multiple_solutions = False, maze = None\<rparr> (1, 5) = [(1, 3)]"
  "walk_neighbors \<lparr>width = 7, height = 3, multiple_solutions = False, maze = None\<rparr> (1, 3) = [(1, 5), (1, 1)]"
  by (simp_all add: walk_neighbors_def)

theorem walk_path_loop_erased_witness:
  "walk_loop \<lparr>width = 7, height = 3, multiple_solutions = False, maze = None\<rparr>
      (\<lambda>i. if i = 3 then 1 else 0) (1, 5) [(1, 5)] 0
      \<lparr>cur_maze = [''#######'', ''# #####'', ''#######''], in_maze = {(1, 1)}, draws = 0, yielded = []\<rparr>
    = Inr ((1, 1), [(1, 5), (1, 3), (1, 1)], 4,
        \<lparr>cur_maze = [''#######'', ''# #####'', ''#######''], in_maze = {(1, 1)}, draws = 4,
         yielded = map (walking_event [''#######'', ''# #####'', ''#######''])
           [[(1, 5), (1, 3)], [(1, 5)], [(1, 5), (1, 3)], [(1, 5), (1, 3), (1, 1)]]\<rparr>) \<and>
   [(1, 5) :: cell] \<noteq> [] \<and> last [(1, 5)] = ((1, 5) :: cell) \<and> distinct [(1, 5) :: cell] \<and>
   (\<exists>ps. yielded (\<lparr>cur_maze = [''#######'', ''# #####'', ''#######''], in_maze = {(1, 1)}, draws = 4,
         yielded = map (walking_event [''#######'', ''# #####'', ''#######''])
           [[(1, 5), (1, 3)], [(1, 5)], [(1, 5), (1, 3)], [(1, 5), (1, 3), (1, 1)]]\<rparr>)
        = yielded (\<lparr>cur_maze = [''#######'', ''# #####'', ''#######''], in_maze = {(1, 1)}, draws = 0, yielded = []\<rparr>) @
          map (walking_event (cur_maze (\<lparr>cur_maze = [''#######'', ''# #####'', ''#######''], in_maze = {(1, 1)}, draws = 0, yielded = []\<rparr>))) ps \<and>
      walk_chain \<lparr>width = 7, height = 3, multiple_solutions = False, maze = None\<rparr> ([(1, 5)] # ps) \<and>
      (\<forall>q \<in> set ([(1, 5)] # ps). distinct q) \<and>
      [(1, 5), (1, 3), (1, 1)] = last ([(1, 5)] # ps) \<and>
      distinct [(1, 5), (1, 3), (1, 1 :: int) :: cell])"
proof -
  have run: "walk_loop \<lparr>width = 7, height = 3, multiple_solutions = False, maze = None\<rparr>
      (\<lambda>i. if i = 3 then 1 else 0) (1, 5) [(1, 5)] 0
      \<lparr>cur_maze = [''#######'', ''# #####'', ''#######''], in_maze = {(1, 1)}, draws = 0, yielded = []\<rparr>
    = Inr ((1, 1), [(1, 5), (1, 3), (1, 1)], 4,
        \<lparr>cur_maze = [''#######'', ''# #####'', ''#######''], in_maze = {(1, 1)}, draws = 4,
         yielded = map (walking_event [''#######'', ''# #####'', ''#######''])
           [[(1, 5), (1, 3)], [(1, 5)], [(1, 5), (1, 3)], [(1, 5), (1, 3), (1, 1)]]\<rparr>)"
    by (simp add: walk_loop.simps walk_neighbors_3x7 choice_def extend_path_def yield_def
        max_steps_def walking_event_def)
  have h: "[(1, 5) :: cell] \<noteq> []" "last [(1, 5)] = ((1, 5) :: cell)" "distinct [(1, 5) :: cell]"
    by simp_all
  from walk_path_loop_erased [OF run h] have c: "(\<exists>ps. yielded (\<lparr>cur_maze = [''#######'', ''# #####'', ''#######''], in_maze = {(1, 1)}, draws = 4,
         yielded = map (walking_event [''#######'', ''# #####'', ''#######''])
           [[(1, 5), (1, 3)], [(1, 5)], [(1, 5), (1, 3)], [(1, 5), (1, 3), (1, 1)]]\<rparr>)
        = yielded (\<lparr>cur_maze = [''#######'', ''# #####'', ''#######''], in_maze = {(1, 1)}, draws = 0, yielded = []\<rparr>) @
          map (walking_event (cur_maze (\<lparr>cur_maze = [''#######'', ''# #####'', ''#######''], in_maze = {(1, 1)}, draws = 0, yielded = []\<rparr>))) ps \<and>
      walk_chain \<lparr>width = 7, height = 3, multiple_solutions = False, maze = None\<rparr> ([(1, 5)] # ps) \<and>
      (\<forall>q \<in> set ([(1, 5)] # ps). distinct q) \<and>
      [(1, 5), (1, 3), (1, 1)] = last ([(1, 5)] # ps) \<and>
      distinct [(1, 5), (1, 3), (1, 1 :: int) :: cell])" .
  from run h c show ?thesis by (intro conjI)
qed

section \<open>Termination of the two traversals\<close>

lemma visit_neighbors_new:
  assumes "visit_neighbors g m rc ds (visited, queue) = Inr (visited', queue')"
  shows "\<exists>new. queue' = queue @ new \<and> visited' = visited \<union> set new \<and> distinct new \<and>
           set new = {x \<in> set (map (shift rc) ds). open_cell g m x \<and> x \<notin> visited}"
  using assms
proof (induction ds arbitrary: visited queue)
  case Nil
  then show ?case by simp
next
  case (Cons d ds)
  obtain dr dc where d: "d = (dr, dc)" by (cases d)
  let ?x = "(fst rc + dr, snd rc + dc)"
  have sx: "shift rc d = ?x" by (simp add: shift_def d)
  show ?case
  proof (cases "in_grid g ?x \<and> ?x \<notin> visited")
    case False
    then have run: "visit_neighbors g m rc ds (visited, queue) = Inr (visited', queue')"
      using Cons.prems by (auto simp: d in_grid_def Let_def)
    from Cons.IH [OF run] obtain new where new: "queue' = queue @ new"
      "visited' = visited \<union> set new" "distinct new"
      "set new = {x \<in> set (map (shift rc) ds). open_cell g m x \<and> x \<notin> visited}" by blast
    have "set new = {x \<in> set (map (shift rc) (d # ds)). open_cell g m x \<and> x \<notin> visited}"
      using False new(4) sx by (auto simp: open_cell_def)
    with new show ?thesis by blast
  next
    case True
    then have cond: "0 \<le> fst rc + dr \<and> fst rc + dr < height g \<and> 0 \<le> snd rc + dc \<and>
        snd rc + dc < width g \<and> ?x \<notin> visited" by (simp add: in_grid_def)
    from Cons.prems cond obtain ch where ch: "grid_get m (fst rc + dr) (snd rc + dc) = Inr ch"
      by (cases "grid_get m (fst rc + dr) (snd rc + dc)") (simp_all add: d Let_def)
    show ?thesis
    proof (cases "ch = CHR ''#''")
      case True
      then have run: "visit_neighbors g m rc ds (visited, queue) = Inr (visited', queue')"
        using Cons.prems cond ch by (simp add: d Let_def)
      from Cons.IH [OF run] obtain new where new: "queue' = queue @ new"
        "visited' = visited \<union> set new" "distinct new"
        "set new = {x \<in> set (map (shift rc) ds). open_cell g m x \<and> x \<notin> visited}" by blast
      have "\<not> open_cell g m ?x" using True ch by (simp add: open_cell_def)
      then have "set new = {x \<in> set (map (shift rc) (d # ds)). open_cell g m x \<and> x \<notin> visited}"
        using new(4) sx by auto
      with new show ?thesis by blast
    next
      case False
      then have run: "visit_neighbors g m rc ds (insert ?x visited, queue @ [?x])
          = Inr (visited', queue')"
        using Cons.prems cond ch by (simp add: d Let_def)
      from Cons.IH [OF run] obtain new where new: "queue' = (queue @ [?x]) @ new"
        "visited' = insert ?x visited \<union> set new" "distinct new"
        "set new = {x \<in> set (map (shift rc) ds). open_cell g m x \<and> x \<notin> insert ?x visited}"
        by blast
      have op: "open_cell g m ?x" using False ch \<open>in_grid g ?x \<and> ?x \<notin> visited\<close>
        by (simp add: open_cell_def)
      have "queue' = queue @ (?x # new)" using new(1) by simp
      moreover have "visited' = visited \<union> set (?x # new)" using new(2) by auto
      moreover have "distinct (?x # new)" using new(3,4) by auto
      moreover have "set (?x # new)
          = {x \<in> set (map (shift rc) (d # ds)). open_cell g m x \<and> x \<notin> visited}"
        using new(4) op cond sx by auto
      ultimately show ?thesis by blast
    qed
  qed
qed

lemma finite_in_grid: "finite {rc. in_grid g rc}"
proof -
  have "{rc. in_grid g rc} \<subseteq> {0..<height g} \<times> {0..<width g}"
    by (auto simp: in_grid_def)
  then show ?thesis by (rule finite_subset) simp
qed

lemma unvisited_decreases:
  assumes "set new \<subseteq> {x. in_grid g x} - visited" "new \<noteq> []"
  shows "card ({x. in_grid g x} - (visited \<union> set new)) < card ({x. in_grid g x} - visited)"
proof (rule psubset_card_mono)
  show "finite ({x. in_grid g x} - visited)" using finite_in_grid by simp
  from assms(2) obtain x where x: "x \<in> set new" by (cases new) auto
  with assms(1) have "x \<in> {x. in_grid g x} - visited" by blast
  moreover have "x \<notin> {x. in_grid g x} - (visited \<union> set new)" using x by simp
  ultimately show "{x. in_grid g x} - (visited \<union> set new) \<subset> {x. in_grid g x} - visited"
    by blast
qed

lemma traversal_measure:
  assumes "n = length rest + length new" "visited' = visited \<union> set new"
    "set new \<subseteq> {x. open_cell g m x \<and> x \<notin> visited}"
  shows "card ({x. in_grid g x} - visited') < card ({x. in_grid g x} - visited) \<or>
         card ({x. in_grid g x} - visited') = card ({x. in_grid g x} - visited) \<and>
         n < Suc (length rest)"
proof (cases "new = []")
  case True
  with assms show ?thesis by simp
next
  case False
  have "set new \<subseteq> {x. in_grid g x} - visited" using assms(3) by (auto simp: open_cell_def)
  from unvisited_decreases [OF this False] assms(2) show ?thesis by simp
qed

termination reachable_loop
proof (relation "measures [\<lambda>(g, m, visited, queue). card ({x. in_grid g x} - visited),
                           \<lambda>(g, m, visited, queue). length queue]", goal_cases)
  case 1
  show ?case by simp
next
  case (2 g m visited rc rest x2 visited' queue')
  then have "visit_neighbors g m rc directions (visited, rest) = Inr (visited', queue')"
    by simp
  from visit_neighbors_new [OF this] obtain new where new: "queue' = rest @ new"
    "visited' = visited \<union> set new"
    "set new = {x \<in> set (map (shift rc) directions). open_cell g m x \<and> x \<notin> visited}" by blast
  from new(3) have sub: "set new \<subseteq> {x. open_cell g m x \<and> x \<notin> visited}" by blast
  have len: "length queue' = length rest + length new" using new(1) by simp
  from traversal_measure [OF len new(2) sub] show ?case by auto
qed

lemma visit_neighbors_dist_new:
  assumes "visit_neighbors_dist g m rc distance ds (visited, queue) = Inr (visited', queue')"
  shows "\<exists>new. queue' = queue @ map (\<lambda>x. (x, distance + 1)) new \<and> visited' = visited \<union> set new \<and> distinct new \<and>
           set new = {x \<in> set (map (shift rc) ds). open_cell g m x \<and> x \<notin> visited}"
  using assms
proof (induction ds arbitrary: visited queue)
  case Nil
  then show ?case by simp
next
  case (Cons d ds)
  obtain dr dc where d: "d = (dr, dc)" by (cases d)
  let ?x = "(fst rc + dr, snd rc + dc)"
  have sx: "shift rc d = ?x" by (simp add: shift_def d)
  show ?case
  proof (cases "in_grid g ?x \<and> ?x \<notin> visited")
    case False
    then have run: "visit_neighbors_dist g m rc distance ds (visited, queue) = Inr (visited', queue')"
      using Cons.prems by (auto simp: d in_grid_def Let_def)
    from Cons.IH [OF run] obtain new where new: "queue' = queue @ map (\<lambda>x. (x, distance + 1)) new"
      "visited' = visited \<union> set new" "distinct new"
      "set new = {x \<in> set (map (shift rc) ds). open_cell g m x \<and> x \<notin> visited}" by blast
    have "set new = {x \<in> set (map (shift rc) (d # ds)). open_cell g m x \<and> x \<notin> visited}"
      using False new(4) sx by (auto simp: open_cell_def)
    with new show ?thesis by blast
  next
    case True
    then have cond: "0 \<le> fst rc + dr \<and> fst rc + dr < height g \<and> 0 \<le> snd rc + dc \<and>
        snd rc + dc < width g \<and> ?x \<notin> visited" by (simp add: in_grid_def)
    from Cons.prems cond obtain ch where ch: "grid_get m (fst rc + dr) (snd rc + dc) = Inr ch"
      by (cases "grid_get m (fst rc + dr) (snd rc + dc)") (simp_all add: d Let_def)
    show ?thesis
    proof (cases "ch = CHR ''#''")
      case True
      then have run: "visit_neighbors_dist g m rc distance ds (visited, queue) = Inr (visited', queue')"
        using Cons.prems cond ch by (simp add: d Let_def)
      from Cons.IH [OF run] obtain new where new: "queue' = queue @ map (\<lambda>x. (x, distance + 1)) new"
        "visited' = visited \<union> set new" "distinct new"
        "set new = {x \<in> set (map (shift rc) ds). open_cell g m x \<and> x \<notin> visited}" by blast
      have "\<not> open_cell g m ?x" using True ch by (simp add: open_cell_def)
      then have "set new = {x \<in> set (map (shift rc) (d # ds)). open_cell g m x \<and> x \<notin> visited}"
        using new(4) sx by auto
      with new show ?thesis by blast
    next
      case False
      then have run: "visit_neighbors_dist g m rc distance ds (insert ?x visited, queue @ [(?x, distance + 1)])
          = Inr (visited', queue')"
        using Cons.prems cond ch by (simp add: d Let_def)
      from Cons.IH [OF run] obtain new where new: "queue' = (queue @ [(?x, distance + 1)]) @ map (\<lambda>x. (x, distance + 1)) new"
        "visited' = insert ?x visited \<union> set new" "distinct new"
        "set new = {x \<in> set (map (shift rc) ds). open_cell g m x \<and> x \<notin> insert ?x visited}"
        by blast
      have op: "open_cell g m ?x" using False ch \<open>in_grid g ?x \<and> ?x \<notin> visited\<close>
        by (simp add: open_cell_def)
      have "queue' = queue @ map (\<lambda>x. (x, distance + 1)) (?x # new)" using new(1) by simp
      moreover have "visited' = visited \<union> set (?x # new)" using new(2) by auto
      moreover have "distinct (?x # new)" using new(3,4) by auto
      moreover have "set (?x # new)
          = {x \<in> set (map (shift rc) (d # ds)). open_cell g m x \<and> x \<notin> visited}"
        using new(4) op cond sx by auto
      ultimately show ?thesis by blast
    qed
  qed
qed


termination furthest_loop
proof (relation "measures [\<lambda>(g, m, visited, queue, fc, md, taken). card ({x. in_grid g x} - visited),
                           \<lambda>(g, m, visited, queue, fc, md, taken). length queue]", goal_cases)
  case 1
  show ?case by simp
next
  case (2 g m visited rc distance rest furthest_cell max_distance taken x2 visited' queue')
  then have "visit_neighbors_dist g m rc distance directions (visited, rest) = Inr (visited', queue')"
    by simp
  from visit_neighbors_dist_new [OF this] obtain new where
    new: "queue' = rest @ map (\<lambda>x. (x, distance + 1)) new"
    "visited' = visited \<union> set new"
    "set new = {x \<in> set (map (shift rc) directions). open_cell g m x \<and> x \<notin> visited}" by blast
  from new(3) have sub: "set new \<subseteq> {x. open_cell g m x \<and> x \<notin> visited}" by blast
  have len: "length queue' = length rest + length new" using new(1) by simp
  from traversal_measure [OF len new(2) sub] show ?case by auto
next
  case (3 g m visited rc distance rest furthest_cell max_distance taken x2 visited' queue')
  then have "visit_neighbors_dist g m rc distance directions (visited, rest) = Inr (visited', queue')"
    by simp
  from visit_neighbors_dist_new [OF this] obtain new where
    new: "queue' = rest @ map (\<lambda>x. (x, distance + 1)) new"
    "visited' = visited \<union> set new"
    "set new = {x \<in> set (map (shift rc) directions). open_cell g m x \<and> x \<notin> visited}" by blast
  from new(3) have sub: "set new \<subseteq> {x. open_cell g m x \<and> x \<notin> visited}" by blast
  have len: "length queue' = length rest + length new" using new(1) by simp
  from traversal_measure [OF len new(2) sub] show ?case by auto
qed

end
